theory Spec2Isabelle
  imports Main "HOL-Library.Char_ord" "HOL-Library.Sublist"
begin

section \<open>JavaScript strings\<close>

text \<open>
  A text is a \<^typ>\<open>string\<close>: a list of code units below 256 (the Latin-1 range of a
  JavaScript string). The white space of \<open>String.prototype.trim\<close> and of the regular
  expression escape \<open>\s\<close> is the same set; below 256 it is TAB, LF, VT, FF, CR, SP and
  NBSP. The line terminators below 256 are LF and CR.
\<close>

definition isWhiteSpace :: "char \<Rightarrow> bool" where
  "isWhiteSpace c =
     (c = CHR 0x09 \<or> c = CHR 0x0A \<or> c = CHR 0x0B \<or> c = CHR 0x0C \<or> c = CHR 0x0D
      \<or> c = CHR 0x20 \<or> c = CHR 0xA0)"

definition isLineTerminator :: "char \<Rightarrow> bool" where
  "isLineTerminator c = (c = CHR 0x0A \<or> c = CHR 0x0D)"

definition isDigit :: "char \<Rightarrow> bool" where
  "isDigit c = (CHR ''0'' \<le> c \<and> c \<le> CHR ''9'')"

definition isWordChar :: "char \<Rightarrow> bool" where
  "isWordChar c =
     ((CHR ''a'' \<le> c \<and> c \<le> CHR ''z'') \<or> (CHR ''A'' \<le> c \<and> c \<le> CHR ''Z'')
      \<or> (CHR ''0'' \<le> c \<and> c \<le> CHR ''9'') \<or> c = CHR ''_'')"

text \<open>
  Case folding of the \<open>i\<close> flag. Every pattern of this program is ASCII, and without
  the \<open>u\<close> flag a code unit above 127 never folds to an ASCII one, so folding the ASCII
  letters is all that matching can observe.
\<close>

definition toUpper :: "char \<Rightarrow> char" where
  "toUpper c = (if CHR ''a'' \<le> c \<and> c \<le> CHR ''z'' then char_of (of_char c - (32::nat)) else c)"

definition toLower :: "char \<Rightarrow> char" where
  "toLower c = (if CHR ''A'' \<le> c \<and> c \<le> CHR ''Z'' then char_of (of_char c + (32::nat)) else c)"

definition js_trim :: "string \<Rightarrow> string" where
  "js_trim s = rev (dropWhile isWhiteSpace (rev (dropWhile isWhiteSpace s)))"

definition endsWith :: "string \<Rightarrow> string \<Rightarrow> bool" where
  "endsWith s suf = suffix suf s"

definition startsWith :: "string \<Rightarrow> string \<Rightarrow> bool" where
  "startsWith s pre = prefix pre s"

datatype error = TypeError | Thrown string

section \<open>Regular expressions with backtracking\<close>

text \<open>
  The patterns of the program use literals, \<open>.\<close>, character classes, the assertions
  \<open>^\<close>, \<open>$\<close> and \<open>\b\<close>, sequence, alternation and greedy or lazy quantifiers. A
  matcher state is the code unit before the current position (none at the start of the
  text) and the rest of the text. \<open>rmatch\<close> lists the states in which a match of the
  pattern can end, in the order in which backtracking tries them: the head of the list
  is the end of the match that \<open>exec\<close> reports.
\<close>

datatype citem = CChar char | CRange char char | CSpace | CNotSpace | CDigit

datatype regex =
    Lit char
  | Dot
  | CSet "citem list"
  | CNotSet "citem list"
  | Bol
  | Eol
  | WordB
  | Eps
  | Seq regex regex
  | Alt regex regex
  | Rep regex nat "nat option" bool

record flags =
  global :: bool
  ignoreCase :: bool
  multiline :: bool

type_synonym mstate = "char option \<times> string"

fun item_has :: "citem \<Rightarrow> char \<Rightarrow> bool" where
  "item_has (CChar a) c = (c = a)"
| "item_has (CRange lo hi) c = (lo \<le> c \<and> c \<le> hi)"
| "item_has CSpace c = isWhiteSpace c"
| "item_has CNotSpace c = (\<not> isWhiteSpace c)"
| "item_has CDigit c = isDigit c"

definition class_has :: "flags \<Rightarrow> citem list \<Rightarrow> char \<Rightarrow> bool" where
  "class_has f items c =
     (if ignoreCase f
      then list_ex (\<lambda>i. item_has i c \<or> item_has i (toUpper c) \<or> item_has i (toLower c)) items
      else list_ex (\<lambda>i. item_has i c) items)"

definition lit_eq :: "flags \<Rightarrow> char \<Rightarrow> char \<Rightarrow> bool" where
  "lit_eq f a c = (if ignoreCase f then toUpper c = toUpper a else c = a)"

definition step_char :: "(char \<Rightarrow> bool) \<Rightarrow> mstate \<Rightarrow> mstate list" where
  "step_char p st = (case snd st of [] \<Rightarrow> [] | c # cs \<Rightarrow> if p c then [(Some c, cs)] else [])"

definition at_word_boundary :: "mstate \<Rightarrow> bool" where
  "at_word_boundary st =
     (let a = (case fst st of None \<Rightarrow> False | Some c \<Rightarrow> isWordChar c);
          b = (case snd st of [] \<Rightarrow> False | c # _ \<Rightarrow> isWordChar c)
      in a \<noteq> b)"

definition at_bol :: "flags \<Rightarrow> mstate \<Rightarrow> bool" where
  "at_bol f st = (case fst st of None \<Rightarrow> True | Some c \<Rightarrow> multiline f \<and> isLineTerminator c)"

definition at_eol :: "flags \<Rightarrow> mstate \<Rightarrow> bool" where
  "at_eol f st = (case snd st of [] \<Rightarrow> True | c # _ \<Rightarrow> multiline f \<and> isLineTerminator c)"

text \<open>
  \<open>repeat\<close> is the quantifier \<open>{mn,mx}\<close> (\<open>mx = None\<close> for no upper bound), greedy
  when \<open>g\<close>: once the minimum is reached, an iteration that consumes nothing is
  rejected, a greedy quantifier tries one more iteration before stopping and a lazy one
  stops before trying one more.
\<close>

function (sequential) rmatch :: "flags \<Rightarrow> regex \<Rightarrow> mstate \<Rightarrow> mstate list"
  and repeat :: "flags \<Rightarrow> regex \<Rightarrow> nat \<Rightarrow> nat option \<Rightarrow> bool \<Rightarrow> mstate \<Rightarrow> mstate list" where
  "rmatch f (Lit a) st = step_char (lit_eq f a) st"
| "rmatch f Dot st = step_char (\<lambda>c. \<not> isLineTerminator c) st"
| "rmatch f (CSet items) st = step_char (class_has f items) st"
| "rmatch f (CNotSet items) st = step_char (\<lambda>c. \<not> class_has f items c) st"
| "rmatch f Bol st = (if at_bol f st then [st] else [])"
| "rmatch f Eol st = (if at_eol f st then [st] else [])"
| "rmatch f WordB st = (if at_word_boundary st then [st] else [])"
| "rmatch f Eps st = [st]"
| "rmatch f (Seq r1 r2) st = concat (map (rmatch f r2) (rmatch f r1 st))"
| "rmatch f (Alt r1 r2) st = rmatch f r1 st @ rmatch f r2 st"
| "rmatch f (Rep r mn mx g) st = repeat f r mn mx g st"
| "repeat f r mn mx g st =
     (if mx = Some 0 then [st]
      else
        let nexts = filter (\<lambda>st'. 0 < mn \<or> length (snd st') < length (snd st)) (rmatch f r st);
            more = concat (map (repeat f r (mn - 1) (map_option (\<lambda>k. k - 1) mx) g) nexts)
        in if 0 < mn then more
           else if g then more @ [st]
           else st # more)"
  by pat_completeness auto
termination
  apply (relation "inv_image (less_than <*lex*> less_than <*lex*> less_than)
     (\<lambda>x. case x of Inl (f, r, st) \<Rightarrow> (2 * size r, 0, 0)
                  | Inr (f, r, mn, mx, g, st) \<Rightarrow> (2 * size r + 1, mn, length (snd st)))")
  apply auto
  done

definition lits :: "string \<Rightarrow> regex" where
  "lits s = foldr (\<lambda>c r. Seq (Lit c) r) s Eps"

definition seqs :: "regex list \<Rightarrow> regex" where
  "seqs rs = foldr Seq rs Eps"

text \<open>
  The first match at or after the current position (\<open>exec\<close> of a pattern without the
  \<open>g\<close> flag, which starts at 0 and tries every position up to the end of the text): its
  start offset and the matched substring.
\<close>

fun search :: "flags \<Rightarrow> regex \<Rightarrow> nat \<Rightarrow> char option \<Rightarrow> string \<Rightarrow> (nat \<times> string) option" where
  "search f r i prev [] =
     (case rmatch f r (prev, []) of [] \<Rightarrow> None | st # _ \<Rightarrow> Some (i, []))"
| "search f r i prev (c # cs) =
     (case rmatch f r (prev, c # cs) of
        [] \<Rightarrow> search f r (Suc i) (Some c) cs
      | st # _ \<Rightarrow> Some (i, take (length (c # cs) - length (snd st)) (c # cs)))"

definition regex_test :: "flags \<Rightarrow> regex \<Rightarrow> string \<Rightarrow> bool" where
  "regex_test f r text = (search f r 0 None text \<noteq> None)"

text \<open>
  \<open>String.prototype.replace\<close> with a pattern without the \<open>g\<close> flag and a replacement
  without \<open>$\<close>: the first match is replaced, a text without a match is returned as it is.
\<close>

definition js_replace :: "flags \<Rightarrow> regex \<Rightarrow> string \<Rightarrow> string \<Rightarrow> string" where
  "js_replace f r repl s =
     (case search f r 0 None s of
        None \<Rightarrow> s
      | Some (i, m) \<Rightarrow> take i s @ repl @ drop (i + length m) s)"

text \<open>
  All matches of a pattern with the \<open>g\<close> flag, as the iterator of \<open>matchAll\<close> yields
  them: \<open>skip\<close> is the distance from the current offset \<open>i\<close> to \<open>lastIndex\<close>. A match
  moves \<open>lastIndex\<close> to its end, an empty match moves it one further, and a failed
  attempt moves the attempt to the next offset.
\<close>

fun matchAll_scan :: "flags \<Rightarrow> regex \<Rightarrow> nat \<Rightarrow> nat \<Rightarrow> char option \<Rightarrow> string \<Rightarrow> (nat \<times> string) list" where
  "matchAll_scan f r skip i prev [] =
     (if 0 < skip then []
      else case rmatch f r (prev, []) of [] \<Rightarrow> [] | st # _ \<Rightarrow> [(i, [])])"
| "matchAll_scan f r skip i prev (c # cs) =
     (if 0 < skip then matchAll_scan f r (skip - 1) (Suc i) (Some c) cs
      else case rmatch f r (prev, c # cs) of
             [] \<Rightarrow> matchAll_scan f r 0 (Suc i) (Some c) cs
           | st # _ \<Rightarrow>
               (let m = take (length (c # cs) - length (snd st)) (c # cs)
                in (i, m) # matchAll_scan f r (length m - 1) (Suc i) (Some c) cs))"

record regexp =
  source :: regex
  rflags :: flags
  lastIndex :: nat

text \<open>\<open>new RegExp(pattern)\<close> copies source and flags; the copy starts at \<open>lastIndex = 0\<close>.\<close>

definition new_RegExp :: "regexp \<Rightarrow> regexp" where
  "new_RegExp re = re\<lparr>lastIndex := 0\<rparr>"

text \<open>
  \<open>text.matchAll(re)\<close> throws a TypeError for a pattern without the \<open>g\<close> flag.
  Otherwise it iterates over a clone of \<open>re\<close> that starts at the \<open>lastIndex\<close> of
  \<open>re\<close>, and \<open>re\<close> itself is left as it was. A match is its \<open>index\<close> and its
  text \<open>match[0]\<close>.
\<close>

definition String_matchAll :: "string \<Rightarrow> regexp \<Rightarrow> error + (nat \<times> string) list" where
  "String_matchAll text re =
     (if global (rflags re)
      then Inr (matchAll_scan (rflags re) (source re) (lastIndex re) 0 None text)
      else Inl TypeError)"

section \<open>src/utils/actions.ts\<close>

definition URL_hostchars :: "citem list" where
  "URL_hostchars = [CChar CHR ''-'', CRange CHR ''a'' CHR ''z'', CRange CHR ''A'' CHR ''Z'',
     CRange CHR ''0'' CHR ''9'', CChar CHR ''@'', CChar CHR '':'', CChar CHR ''%'', CChar CHR ''.'',
     CChar CHR ''_'', CChar CHR ''+'', CChar CHR ''~'', CChar CHR ''#'', CChar CHR ''='']"

definition URL_tldchars :: "citem list" where
  "URL_tldchars = [CRange CHR ''a'' CHR ''z'', CRange CHR ''A'' CHR ''Z'', CRange CHR ''0'' CHR ''9'',
     CChar CHR ''('', CChar CHR '')'']"

definition URL_tailchars :: "citem list" where
  "URL_tailchars = [CChar CHR ''-'', CRange CHR ''a'' CHR ''z'', CRange CHR ''A'' CHR ''Z'',
     CRange CHR ''0'' CHR ''9'', CChar CHR ''('', CChar CHR '')'', CChar CHR ''@'', CChar CHR '':'',
     CChar CHR ''%'', CChar CHR ''_'', CChar CHR ''+'', CChar CHR ''.'', CChar CHR ''~'', CChar CHR ''#'',
     CChar CHR ''?'', CChar CHR ''&'', CChar CHR ''/'', CChar CHR ''='']"

text \<open>
  \<^verbatim>\<open>/https?:\/\/(?:www\.)?[-a-zA-Z0-9@:%._\+~#=]{1,256}\.[a-zA-Z0-9()]{1,6}\b(?:[-a-zA-Z0-9()@:%_\+.~#?&\/=]*)/gi\<close>
\<close>

definition URL_PATTERN_source :: regex where
  "URL_PATTERN_source = seqs
     [lits ''http'', Rep (Lit CHR ''s'') 0 (Some 1) True, lits ''://'',
      Rep (lits ''www.'') 0 (Some 1) True,
      Rep (CSet URL_hostchars) 1 (Some 256) True,
      Lit CHR ''.'',
      Rep (CSet URL_tldchars) 1 (Some 6) True,
      WordB,
      Rep (CSet URL_tailchars) 0 None True]"

definition URL_PATTERN_flags :: flags where
  "URL_PATTERN_flags = \<lparr>global = True, ignoreCase = True, multiline = False\<rparr>"

text \<open>
  The module-level object \<open>URL_PATTERN\<close>. Its source and flags never change; its
  \<open>lastIndex\<close> is the only mutable state of the module, so it is the state that the
  model passes to \<open>processActions\<close> and gets back from it.
\<close>

definition URL_PATTERN :: "nat \<Rightarrow> regexp" where
  "URL_PATTERN li = \<lparr>source = URL_PATTERN_source, rflags = URL_PATTERN_flags, lastIndex = li\<rparr>"

record ViewAction =
  action :: string
  label :: string
  url :: string
  clear :: "bool option"

definition cleanUrl :: "string \<Rightarrow> string" where
  "cleanUrl u =
     (let u1 = (if endsWith u '')''
                then (let hasOpenParen = (CHR ''('' \<in> set (butlast u))
                      in if \<not> hasOpenParen then butlast u else u)
                else u)
      in js_trim u1)"

definition no_flags :: flags where
  "no_flags = \<lparr>global = False, ignoreCase = False, multiline = False\<rparr>"

text \<open>\<^verbatim>\<open>/^www\./\<close> and \<^verbatim>\<open>/\.(com|org|net|io|dev)$/\<close>\<close>

definition www_pattern :: regex where
  "www_pattern = Seq Bol (lits ''www.'')"

definition tld_pattern :: regex where
  "tld_pattern = seqs
     [Lit CHR ''.'',
      Alt (lits ''com'') (Alt (lits ''org'') (Alt (lits ''net'') (Alt (lits ''io'') (lits ''dev'')))),
      Eol]"

text \<open>
  \<open>new URL(url).hostname\<close> is the platform's URL parser: the parameter \<open>hostname\<close>,
  which is \<open>None\<close> where the constructor throws. The \<open>catch\<close> of the source is the
  \<open>None\<close> branch.
\<close>

definition derive_label :: "(string \<Rightarrow> string option) \<Rightarrow> string \<Rightarrow> string" where
  "derive_label hostname u =
     (case hostname u of
        Some h \<Rightarrow> js_replace no_flags tld_pattern [] (js_replace no_flags www_pattern [] h)
      | None \<Rightarrow> ''link'')"

definition view_action :: "(string \<Rightarrow> string option) \<Rightarrow> string \<Rightarrow> ViewAction" where
  "view_action hostname u =
     \<lparr>action = ''view'', label = ''Open '' @ derive_label hostname u, url = u, clear = Some True\<rparr>"

definition processActions ::
  "regexp \<Rightarrow> (string \<Rightarrow> string option) \<Rightarrow> string \<Rightarrow> (error + ViewAction list) \<times> regexp" where
  "processActions pat hostname text =
     (case String_matchAll text (new_RegExp pat) of
        Inl e \<Rightarrow> (Inl e, pat)
      | Inr urlMatches \<Rightarrow>
          if length urlMatches = 0 then (Inr [], pat)
          else
            let actionUrls =
                  map (\<lambda>m. cleanUrl (snd m)) (take (min 3 (length urlMatches)) urlMatches)
            in (Inr (map (view_action hostname) actionUrls), pat))"

text \<open>The matches of the URL pattern in a text, from offset 0.\<close>

definition url_matches :: "string \<Rightarrow> (nat \<times> string) list" where
  "url_matches text = matchAll_scan URL_PATTERN_flags URL_PATTERN_source 0 0 None text"

text \<open>
  The values of \<open>new URL(u).hostname\<close> on the URLs of the examples. The table
  is read at these URLs and at \<open>https://a.b:99999\<close> only, whose port is out of
  range, so that the constructor throws there.
\<close>

definition example_hostname :: "string \<Rightarrow> string option" where
  "example_hostname u =
     (if u = ''https://example.com/page'' then Some ''example.com''
      else if u = ''https://example.com'' then Some ''example.com''
      else if u = ''https://foo.io'' then Some ''foo.io''
      else if u = ''https://a.com'' then Some ''a.com''
      else if u = ''https://b.com'' then Some ''b.com''
      else if u = ''https://c.com'' then Some ''c.com''
      else if u = ''https://d.com'' then Some ''d.com''
      else if u = ''https://www.wiki.org/x'' then Some ''www.wiki.org''
      else None)"

text \<open>
  The older build of the extractor (\<open>processUrls\<close>), which no entry point imports: it
  sorts the matches by descending offset before it takes three of them, and trims the
  match without removing a parenthesis. \<open>Array.prototype.sort\<close> is stable.
\<close>

fun insert_desc :: "nat \<times> string \<Rightarrow> (nat \<times> string) list \<Rightarrow> (nat \<times> string) list" where
  "insert_desc x [] = [x]"
| "insert_desc x (y # ys) = (if fst y \<le> fst x then x # y # ys else y # insert_desc x ys)"

definition sort_desc :: "(nat \<times> string) list \<Rightarrow> (nat \<times> string) list" where
  "sort_desc ms = foldr insert_desc ms []"

definition legacy_action :: "(string \<Rightarrow> string option) \<Rightarrow> string \<Rightarrow> ViewAction" where
  "legacy_action hostname u =
     \<lparr>action = ''view'', label = ''Open '' @ derive_label hostname u, url = js_trim u,
      clear = Some True\<rparr>"

definition processUrls ::
  "regexp \<Rightarrow> (string \<Rightarrow> string option) \<Rightarrow> string \<Rightarrow> (error + ViewAction list \<times> string) \<times> regexp" where
  "processUrls pat hostname text =
     (case String_matchAll text (new_RegExp pat) of
        Inl e \<Rightarrow> (Inl e, pat)
      | Inr urlMatches \<Rightarrow>
          if length urlMatches = 0 then (Inr ([], text), pat)
          else
            let sortedMatches = sort_desc urlMatches;
                processedMessage = text;
                actionUrls = map snd (take (min 3 (length sortedMatches)) sortedMatches)
            in (Inr (map (legacy_action hostname) actionUrls, processedMessage), pat))"

section \<open>build/helpers/markdown.js\<close>

datatype token = Token (ttype: string) (children: "token list option")

definition block_types :: "string list" where
  "block_types = [''heading_open'', ''blockquote_open'', ''bullet_list_open'', ''ordered_list_open'',
     ''fence'', ''hr'', ''table_open'', ''code_block'']"

text \<open>The inner loop over the children of an inline token stops at the first child that is not text.\<close>

fun children_loop :: "token list \<Rightarrow> bool \<Rightarrow> bool" where
  "children_loop [] hasFormatting = hasFormatting"
| "children_loop (child # rest) hasFormatting =
     (if ttype child \<noteq> ''text'' then True else children_loop rest hasFormatting)"

text \<open>The outer loop stops at the first block-level token; an inline token does not stop it.\<close>

fun tokens_loop :: "token list \<Rightarrow> bool \<Rightarrow> bool" where
  "tokens_loop [] hasFormatting = hasFormatting"
| "tokens_loop (tok # rest) hasFormatting =
     (let hf = (if ttype tok = ''inline''
                then (case children tok of
                        Some cs \<Rightarrow> children_loop cs hasFormatting
                      | None \<Rightarrow> hasFormatting)
                else hasFormatting)
      in if ttype tok \<in> set block_types then True else tokens_loop rest hf)"

text \<open>
  \<open>md.parse\<close> belongs to the library markdown-it, outside the repository: it is the
  parameter \<open>parse\<close>, which returns the token list or the exception that it throws.
\<close>

definition containsMarkdown :: "(string \<Rightarrow> error + token list) \<Rightarrow> string \<Rightarrow> error + bool" where
  "containsMarkdown parse text =
     (case parse text of
        Inl e \<Rightarrow> Inl e
      | Inr tokens \<Rightarrow>
          if length tokens \<le> 2 then Inr (tokens_loop tokens False)
          else Inr (2 < length tokens))"

definition m_flag :: flags where
  "m_flag = \<lparr>global = False, ignoreCase = False, multiline = True\<rparr>"

definition ws :: regex where
  "ws = CSet [CSpace]"

definition markdownPatterns :: "(flags \<times> regex) list" where
  "markdownPatterns =
    [(no_flags, seqs [lits ''**'', Rep Dot 1 None False, lits ''**'']),
     (no_flags, seqs [Lit CHR ''*'', Rep Dot 1 None False, Lit CHR ''*'']),
     (no_flags, seqs [lits ''__'', Rep Dot 1 None False, lits ''__'']),
     (no_flags, seqs [Lit CHR ''_'', Rep Dot 1 None False, Lit CHR ''_'']),
     (no_flags, seqs [lits ''~~'', Rep Dot 1 None False, lits ''~~'']),
     (m_flag, seqs [Bol, Rep (Lit CHR ''#'') 1 None True, Rep ws 1 None True, Rep Dot 1 None True, Eol]),
     (m_flag, seqs [Bol, Rep ws 0 None True, CSet [CChar CHR ''-'', CChar CHR ''*'', CChar CHR ''+''],
                    Rep ws 1 None True, Rep Dot 1 None True, Eol]),
     (m_flag, seqs [Bol, Rep ws 0 None True, Rep (CSet [CDigit]) 1 None True, Lit CHR ''.'',
                    Rep ws 1 None True, Rep Dot 1 None True, Eol]),
     (m_flag, seqs [Bol, Rep ws 0 None True, Lit CHR ''>'', Rep Dot 1 None True, Eol]),
     (no_flags, seqs [Lit CHR 0x60, Rep (CNotSet [CChar CHR 0x60]) 1 None True, Lit CHR 0x60]),
     (no_flags, seqs [Lit CHR 0x60, Lit CHR 0x60, Lit CHR 0x60,
                      Rep (CSet [CSpace, CNotSpace]) 0 None False,
                      Lit CHR 0x60, Lit CHR 0x60, Lit CHR 0x60]),
     (no_flags, seqs [Lit CHR ''['', Rep Dot 1 None False, lits ''](''  , Rep Dot 1 None False, Lit CHR '')'']),
     (no_flags, seqs [lits ''!['', Rep Dot 1 None False, lits ''](''  , Rep Dot 1 None False, Lit CHR '')'']),
     (no_flags, seqs [Lit CHR ''|'', Rep Dot 1 None True, Lit CHR ''|'', Rep Dot 1 None True, Lit CHR ''|'']),
     (m_flag, seqs [Bol, Rep (Lit CHR ''-'') 3 None True, Eol])]"

definition hasCommonMarkdownPatterns :: "string \<Rightarrow> bool" where
  "hasCommonMarkdownPatterns text = list_ex (\<lambda>(f, r). regex_test f r text) markdownPatterns"

definition detectMarkdown :: "(string \<Rightarrow> error + token list) \<Rightarrow> string \<Rightarrow> error + bool" where
  "detectMarkdown parse text =
     (case containsMarkdown parse text of
        Inl e \<Rightarrow> Inl e
      | Inr hasMarkdownStructure \<Rightarrow>
          if \<not> hasMarkdownStructure then Inr (hasCommonMarkdownPatterns text)
          else Inr hasMarkdownStructure)"

subsection \<open>The parser of markdown-it under the preset \<open>zero\<close>\<close>

text \<open>
  \<open>new MarkdownIt('zero')\<close> enables one block rule, \<open>paragraph\<close>, and one inline rule,
  \<open>text\<close>. The text is normalised (CR LF and CR become LF) and cut into lines; a line of
  spaces and tabs is empty; every maximal run of lines that are not empty is one
  paragraph, and a paragraph is three tokens: \<open>paragraph_open\<close>, \<open>inline\<close>,
  \<open>paragraph_close\<close>. The content of the inline token is the trimmed text of the
  lines, and its children are one \<open>text\<close> token when the content is not empty.
  The parser throws only for an argument that is not a string.
\<close>

fun md_normalize :: "string \<Rightarrow> string" where
  "md_normalize [] = []"
| "md_normalize [c] = (if c = CHR 0x0D then [CHR 0x0A] else [c])"
| "md_normalize (c # d # ds) =
     (if c = CHR 0x0D \<and> d = CHR 0x0A then CHR 0x0A # md_normalize ds
      else if c = CHR 0x0D then CHR 0x0A # md_normalize (d # ds)
      else c # md_normalize (d # ds))"

fun md_lines :: "string \<Rightarrow> string list" where
  "md_lines [] = [[]]"
| "md_lines (c # cs) =
     (if c = CHR 0x0A then [] # md_lines cs
      else (case md_lines cs of l # ls \<Rightarrow> (c # l) # ls | [] \<Rightarrow> [[c]]))"

definition md_isEmpty :: "string \<Rightarrow> bool" where
  "md_isEmpty l = list_all (\<lambda>c. c = CHR 0x20 \<or> c = CHR 0x09) l"

fun md_paragraphs :: "string list \<Rightarrow> string list \<Rightarrow> string list list" where
  "md_paragraphs acc [] = (if acc = [] then [] else [rev acc])"
| "md_paragraphs acc (l # ls) =
     (if md_isEmpty l
      then (if acc = [] then md_paragraphs [] ls else rev acc # md_paragraphs [] ls)
      else md_paragraphs (l # acc) ls)"

fun md_join :: "string list \<Rightarrow> string" where
  "md_join [] = []"
| "md_join [l] = l"
| "md_join (l # m # ls) = l @ CHR 0x0A # md_join (m # ls)"

definition md_paragraph_tokens :: "string list \<Rightarrow> token list" where
  "md_paragraph_tokens ls =
     (let content = js_trim (md_join ls)
      in [Token ''paragraph_open'' None,
          Token ''inline'' (Some (if content = [] then [] else [Token ''text'' None])),
          Token ''paragraph_close'' None])"

definition markdown_it_zero :: "string \<Rightarrow> error + token list" where
  "markdown_it_zero text =
     Inr (concat (map md_paragraph_tokens (md_paragraphs [] (md_lines (md_normalize text)))))"

section \<open>The label as the specification words it\<close>

text \<open>
  The specification describes the label as the host name without a leading \<open>www.\<close>
  and without a trailing \<open>.com\<close>, \<open>.org\<close>, \<open>.net\<close>, \<open>.io\<close> or \<open>.dev\<close>. These
  two functions follow those words; the source computes the label with the two
  patterns above.
\<close>

definition strip_www_spec :: "string \<Rightarrow> string" where
  "strip_www_spec h = (if startsWith h ''www.'' then drop 4 h else h)"

definition tld_suffixes :: "string list" where
  "tld_suffixes = [''.com'', ''.org'', ''.net'', ''.io'', ''.dev'']"

definition strip_tld_spec :: "string \<Rightarrow> string" where
  "strip_tld_spec h =
     (case find (\<lambda>suf. endsWith h suf) tld_suffixes of
        None \<Rightarrow> h
      | Some suf \<Rightarrow> take (length h - length suf) h)"


section \<open>Properties of the matcher and of the two components\<close>

lemma String_matchAll_URL_PATTERN:
  "String_matchAll text (new_RegExp (URL_PATTERN li)) = Inr (url_matches text)"
  by (simp add: String_matchAll_def new_RegExp_def URL_PATTERN_def url_matches_def
      URL_PATTERN_flags_def)

lemma processActions_URL_PATTERN:
  "processActions (URL_PATTERN li) hostname text =
     (Inr (map (\<lambda>m. view_action hostname (cleanUrl (snd m))) (take 3 (url_matches text))),
      URL_PATTERN li)"
proof (cases "url_matches text")
  case Nil
  then show ?thesis
    by (simp add: processActions_def String_matchAll_URL_PATTERN)
next
  case (Cons m ms)
  have "take (min 3 (length (url_matches text))) (url_matches text) = take 3 (url_matches text)"
    by (simp add: min_def)
  with Cons show ?thesis
    by (simp add: processActions_def String_matchAll_URL_PATTERN Let_def comp_def del: take_Suc_Cons)
qed

lemma detectMarkdown_cases:
  "detectMarkdown parse text =
     (case parse text of
        Inl e \<Rightarrow> Inl e
      | Inr toks \<Rightarrow>
          Inr ((if length toks \<le> 2 then tokens_loop toks False else True)
               \<or> hasCommonMarkdownPatterns text))"
  by (auto simp: detectMarkdown_def containsMarkdown_def split: sum.splits)

text \<open>
  With markdown-it the structural stage is true exactly when the text has a paragraph,
  that is, a line with a character other than space and tab: a paragraph is three
  tokens, and three is more than two.
\<close>

lemma md_tokens_length: "length (concat (map md_paragraph_tokens ps)) = 3 * length ps"
  by (induction ps) (simp_all add: md_paragraph_tokens_def Let_def)

lemma structural_stage_zero:
  "containsMarkdown markdown_it_zero text =
     Inr (md_paragraphs [] (md_lines (md_normalize text)) \<noteq> [])"
proof (cases "md_paragraphs [] (md_lines (md_normalize text))")
  case Nil
  then show ?thesis by (simp add: containsMarkdown_def markdown_it_zero_def)
next
  case (Cons p ps)
  then have "2 < length (concat (map md_paragraph_tokens (md_paragraphs [] (md_lines (md_normalize text)))))"
    by (simp only: md_tokens_length) simp
  with Cons show ?thesis
    by (simp add: containsMarkdown_def markdown_it_zero_def)
qed

text \<open>
  Whatever the parser, a token list of more than two tokens makes the detector return
  true: the children of the inline token are not looked at.
\<close>

lemma more_than_two_tokens_is_formatted:
  "parse text = Inr toks \<Longrightarrow> 2 < length toks \<Longrightarrow> detectMarkdown parse text = Inr True"
  by (simp add: detectMarkdown_cases)

text \<open>
  C8: on the empty string the structural stage and the pattern stage both return false,
  so the detector returns false.
\<close>

theorem detect_empty_string:
  "containsMarkdown markdown_it_zero '''' = Inr False
   \<and> hasCommonMarkdownPatterns '''' = False
   \<and> detectMarkdown markdown_it_zero '''' = Inr False"
proof -
  have 1: "containsMarkdown markdown_it_zero '''' = Inr False" by code_simp
  have 2: "hasCommonMarkdownPatterns '''' = False" by code_simp
  have 3: "detectMarkdown markdown_it_zero '''' = Inr False" by code_simp
  from 1 2 3 show ?thesis by blast
qed

text \<open>
  C1: the claim is that ordinary prose is classified as plain. The parser returns three
  tokens for the single paragraph \<open>plain text, no formatting\<close>, the test
  \<open>tokens.length <= 2\<close> fails, and the structural stage returns \<open>tokens.length > 2\<close>,
  which is true: the detector returns true, although no pattern of the second stage
  matches the text.
\<close>

theorem detect_plain_prose:
  "markdown_it_zero ''plain text, no formatting'' =
     Inr [Token ''paragraph_open'' None, Token ''inline'' (Some [Token ''text'' None]),
          Token ''paragraph_close'' None]
   \<and> containsMarkdown markdown_it_zero ''plain text, no formatting'' = Inr True
   \<and> hasCommonMarkdownPatterns ''plain text, no formatting'' = False
   \<and> detectMarkdown markdown_it_zero ''plain text, no formatting'' = Inr True"
proof -
  have 1: "markdown_it_zero ''plain text, no formatting'' =
     Inr [Token ''paragraph_open'' None, Token ''inline'' (Some [Token ''text'' None]),
          Token ''paragraph_close'' None]" by code_simp
  have 2: "containsMarkdown markdown_it_zero ''plain text, no formatting'' = Inr True"
    by code_simp
  have 3: "hasCommonMarkdownPatterns ''plain text, no formatting'' = False" by code_simp
  have 4: "detectMarkdown markdown_it_zero ''plain text, no formatting'' = Inr True"
    by code_simp
  from 1 2 3 4 show ?thesis by blast
qed

text \<open>
  C3: for every text the extractor returns at most three actions, and the empty list for
  a text without a match of the URL pattern.
\<close>

theorem extract_at_most_three:
  "\<exists>acts. fst (processActions (URL_PATTERN li) hostname text) = Inr acts
     \<and> length acts \<le> 3
     \<and> (url_matches text = [] \<longrightarrow> acts = [])"
  by (simp add: processActions_URL_PATTERN)

theorem extract_at_most_three_witness:
  "url_matches ''no urls here'' = []
   \<and> fst (processActions (URL_PATTERN 0) example_hostname ''no urls here'') = Inr []"
proof -
  have none: "url_matches ''no urls here'' = []" by code_simp
  from extract_at_most_three [of 0 example_hostname "''no urls here''"]
  obtain acts where "fst (processActions (URL_PATTERN 0) example_hostname ''no urls here'') = Inr acts"
    and "url_matches ''no urls here'' = [] \<longrightarrow> acts = []"
    by blast
  with none show ?thesis by simp
qed

lemma js_trim_last:
  assumes "s \<noteq> []" "\<not> isWhiteSpace (last s)"
  shows "js_trim s = dropWhile isWhiteSpace s" "js_trim s \<noteq> []" "last (js_trim s) = last s"
proof -
  let ?t = "dropWhile isWhiteSpace s"
  from assms have "last s \<in> set s" "\<not> isWhiteSpace (last s)" by simp_all
  then have ne: "?t \<noteq> []" by (metis dropWhile_eq_Nil_conv)
  obtain pre where s: "s = pre @ ?t"
    by (metis takeWhile_dropWhile_id)
  with ne have lt: "last ?t = last s" by (metis last_appendR)
  from ne obtain b where t: "?t = b @ [last ?t]"
    by (metis append_butlast_last_id)
  have "rev ?t = last s # rev b"
    by (subst t) (simp add: lt)
  with assms(2) have "dropWhile isWhiteSpace (rev ?t) = rev ?t" by simp
  then show 1: "js_trim s = ?t" by (simp add: js_trim_def)
  from 1 ne show "js_trim s \<noteq> []" by simp
  from 1 lt show "last (js_trim s) = last s" by simp
qed

lemma cleanUrl_strip:
  assumes "endsWith m '')''" "CHR ''('' \<notin> set (butlast m)"
  shows "cleanUrl m = js_trim (butlast m)"
  using assms by (simp add: cleanUrl_def Let_def)

lemma rmatch_lits:
  "\<not> ignoreCase f \<Longrightarrow>
   rmatch f (lits w) (p, s) =
     (if prefix w s then [(if w = [] then p else Some (last w), drop (length w) s)] else [])"
proof (induction w arbitrary: p s)
  case Nil
  then show ?case by (simp add: lits_def)
next
  case (Cons a w)
  have l: "lits (a # w) = Seq (Lit a) (lits w)" by (simp add: lits_def)
  show ?case
  proof (cases s)
    case Nil
    then show ?thesis by (simp add: l step_char_def)
  next
    case (Cons c cs)
    show ?thesis
    proof (cases "c = a")
      case True
      with Cons Cons.prems Cons.IH [of "Some a" cs] show ?thesis
        by (simp add: l step_char_def lit_eq_def)
    next
      case False
      with Cons Cons.prems show ?thesis
        by (simp add: l step_char_def lit_eq_def)
    qed
  qed
qed

lemma no_flags_simps [simp]:
  "\<not> ignoreCase no_flags" "\<not> multiline no_flags" "\<not> global no_flags"
  by (simp_all add: no_flags_def)

lemma rmatch_www:
  "rmatch no_flags www_pattern (p, s) =
     (if p = None \<and> prefix ''www.'' s then [(Some CHR ''.'', drop 4 s)] else [])"
  by (simp add: www_pattern_def rmatch_lits at_bol_def eval_nat_numeral split: option.splits)

lemma search_www_later: "search no_flags www_pattern i (Some c) s = None"
  by (induction s arbitrary: i c) (simp_all add: rmatch_www)

lemma search_www:
  "search no_flags www_pattern 0 None s = (if prefix ''www.'' s then Some (0, ''www.'') else None)"
proof (cases "prefix ''www.'' s")
  case True
  then obtain t where "s = ''www.'' @ t" by (auto simp: prefix_def)
  then show ?thesis by (simp add: rmatch_www)
next
  case False
  then have none: "rmatch no_flags www_pattern (None, s) = []"
    by (subst rmatch_www) simp
  show ?thesis
  proof (cases s)
    case Nil
    with none show ?thesis by simp
  next
    case (Cons c cs)
    with none have "rmatch no_flags www_pattern (None, c # cs) = []" by simp
    then have "search no_flags www_pattern 0 None (c # cs) = None"
      by (simp add: search_www_later)
    with False Cons show ?thesis by simp
  qed
qed

lemma js_replace_www: "js_replace no_flags www_pattern [] h = strip_www_spec h"
  by (simp add: js_replace_def search_www strip_www_spec_def startsWith_def eval_nat_numeral)

lemma lits_then_eol:
  assumes "\<not> ignoreCase f" "\<not> multiline f"
  shows "concat (map (rmatch f (Seq Eol Eps)) (rmatch f (lits w) (p, t))) =
     (if t = w then [(if w = [] then p else Some (last w), [])] else [])"
proof (cases "prefix w t")
  case True
  then obtain r where t: "t = w @ r" by (auto simp: prefix_def)
  with assms show ?thesis
    by (cases r) (simp_all add: rmatch_lits at_eol_def)
next
  case False
  then have "t \<noteq> w" by auto
  with False assms show ?thesis by (simp add: rmatch_lits)
qed

lemma rmatch_tld:
  "rmatch no_flags tld_pattern (p, s) =
     (if s \<in> set tld_suffixes then [(Some (last s), [])] else [])"
proof (cases s)
  case Nil
  then show ?thesis by (simp add: tld_pattern_def seqs_def step_char_def tld_suffixes_def)
next
  case (Cons c t)
  show ?thesis
  proof (cases "c = CHR ''.''")
    case False
    with Cons show ?thesis
      by (simp add: tld_pattern_def seqs_def step_char_def tld_suffixes_def lit_eq_def)
  next
    case True
    with Cons show ?thesis
      by (simp add: tld_pattern_def seqs_def step_char_def tld_suffixes_def lit_eq_def
          lits_then_eol)
  qed
qed

lemma tld_suffix_of_tld:
  "s \<in> set tld_suffixes \<Longrightarrow> find (\<lambda>suf. suffix suf s) tld_suffixes = Some s"
  by (auto simp: tld_suffixes_def suffix_Cons)

lemma search_tld:
  "search no_flags tld_pattern i p s =
     (case find (\<lambda>suf. suffix suf s) tld_suffixes of
        None \<Rightarrow> None
      | Some suf \<Rightarrow> Some (i + (length s - length suf), suf))"
proof (induction s arbitrary: i p)
  case Nil
  then show ?case by (simp add: rmatch_tld tld_suffixes_def)
next
  case (Cons c cs)
  show ?case
  proof (cases "c # cs \<in> set tld_suffixes")
    case True
    then have "rmatch no_flags tld_pattern (p, c # cs) = [(Some (last (c # cs)), [])]"
      by (subst rmatch_tld) simp
    then have "search no_flags tld_pattern i p (c # cs) = Some (i, c # cs)"
      by simp
    with tld_suffix_of_tld [OF True] show ?thesis by simp
  next
    case False
    then have none: "rmatch no_flags tld_pattern (p, c # cs) = []"
      by (subst rmatch_tld) simp
    have same: "find (\<lambda>suf. suffix suf (c # cs)) tld_suffixes = find (\<lambda>suf. suffix suf cs) tld_suffixes"
      using False by (intro find_cong) (auto simp: suffix_Cons)
    have len: "find (\<lambda>suf. suffix suf cs) tld_suffixes = Some suf \<Longrightarrow> length suf \<le> length cs" for suf
      by (auto simp: find_Some_iff suffix_def)
    from none have "search no_flags tld_pattern i p (c # cs) = search no_flags tld_pattern (Suc i) (Some c) cs"
      by simp
    with Cons.IH [of "Suc i" "Some c"] same len show ?thesis
      by (auto split: option.splits)
  qed
qed

lemma js_replace_tld: "js_replace no_flags tld_pattern [] h = strip_tld_spec h"
proof (cases "find (\<lambda>suf. suffix suf h) tld_suffixes")
  case None
  then show ?thesis
    by (simp add: js_replace_def search_tld strip_tld_spec_def endsWith_def)
next
  case (Some suf)
  then have "suffix suf h" by (auto simp: find_Some_iff)
  then have "length suf \<le> length h" by (auto simp: suffix_def)
  with Some show ?thesis
    by (simp add: js_replace_def search_tld strip_tld_spec_def endsWith_def)
qed

lemma derive_label_spec:
  "hostname u = Some h \<Longrightarrow> derive_label hostname u = strip_tld_spec (strip_www_spec h)"
  by (simp add: derive_label_def js_replace_www js_replace_tld)

lemma scan_lower:
  "(j, m) \<in> set (matchAll_scan f r skip i prev s) \<Longrightarrow> i + skip \<le> j"
proof (induction s arbitrary: skip i prev)
  case Nil
  then show ?case by (auto split: if_splits list.splits)
next
  case (Cons c cs)
  show ?case
  proof (cases "0 < skip")
    case True
    with Cons.prems have "(j, m) \<in> set (matchAll_scan f r (skip - 1) (Suc i) (Some c) cs)" by simp
    from Cons.IH [OF this] True show ?thesis by simp
  next
    case False
    show ?thesis
    proof (cases "rmatch f r (prev, c # cs)")
      case Nil
      with False Cons.prems have "(j, m) \<in> set (matchAll_scan f r 0 (Suc i) (Some c) cs)" by simp
      from Cons.IH [OF this] False show ?thesis by simp
    next
      case (Cons st sts)
      with False Cons.prems Cons.IH show ?thesis
        by (fastforce simp: Let_def)
    qed
  qed
qed

lemma scan_sorted:
  "sorted_wrt (<) (map fst (matchAll_scan f r skip i prev s))"
proof (induction s arbitrary: skip i prev)
  case Nil
  then show ?case by (simp split: list.splits)
next
  case (Cons c cs)
  show ?case
  proof (cases "0 < skip")
    case True
    then show ?thesis using Cons.IH by simp
  next
    case False
    show ?thesis
    proof (cases "rmatch f r (prev, c # cs)")
      case Nil
      then show ?thesis using False Cons.IH by simp
    next
      case (Cons st sts)
      then show ?thesis using False Cons.IH
        by (auto simp: Let_def dest!: scan_lower)
    qed
  qed
qed

lemma scan_substring:
  "(j, m) \<in> set (matchAll_scan f r skip i prev s) \<Longrightarrow> take (length m) (drop (j - i) s) = m"
proof (induction s arbitrary: skip i prev)
  case Nil
  then show ?case by (auto split: if_splits list.splits)
next
  case (Cons c cs)
  show ?case
  proof (cases "0 < skip")
    case True
    with Cons.prems have *: "(j, m) \<in> set (matchAll_scan f r (skip - 1) (Suc i) (Some c) cs)" by simp
    from scan_lower [OF *] have "Suc i \<le> j" by simp
    then have "j - i = Suc (j - Suc i)" by simp
    with Cons.IH [OF *] show ?thesis by simp
  next
    case False
    show ?thesis
    proof (cases "rmatch f r (prev, c # cs)")
      case Nil
      with False Cons.prems have *: "(j, m) \<in> set (matchAll_scan f r 0 (Suc i) (Some c) cs)" by simp
      from scan_lower [OF *] have "Suc i \<le> j" by simp
      then have "j - i = Suc (j - Suc i)" by simp
      with Cons.IH [OF *] show ?thesis by simp
    next
      case (Cons st sts)
      let ?m = "take (length (c # cs) - length (snd st)) (c # cs)"
      from Cons False Cons.prems
      consider (here) "j = i" "m = ?m"
        | (later) "(j, m) \<in> set (matchAll_scan f r (length ?m - 1) (Suc i) (Some c) cs)"
        by (auto simp: Let_def)
      then show ?thesis
      proof cases
        case here
        have "take (length ?m) (c # cs) = ?m"
          by (metis append_eq_conv_conj append_take_drop_id)
        with here show ?thesis by simp
      next
        case later
        from scan_lower [OF later] have "Suc i \<le> j" by simp
        then have "j - i = Suc (j - Suc i)" by simp
        with Cons.IH [OF later] show ?thesis by simp
      qed
    qed
  qed
qed

lemma url_matches_sorted: "sorted_wrt (<) (map fst (url_matches text))"
  by (simp add: url_matches_def scan_sorted)

lemma url_matches_substring:
  assumes "k < length (url_matches text)"
  shows "take (length (snd (url_matches text ! k))) (drop (fst (url_matches text ! k)) text)
           = snd (url_matches text ! k)"
proof -
  from assms have "(fst (url_matches text ! k), snd (url_matches text ! k)) \<in> set (url_matches text)"
    by simp
  then show ?thesis
    unfolding url_matches_def by (drule_tac scan_substring) simp
qed

lemma processActions_nth:
  assumes "k < length (url_matches text)" "k < 3"
  shows "\<exists>acts. fst (processActions (URL_PATTERN li) hostname text) = Inr acts
           \<and> k < length acts
           \<and> acts ! k = view_action hostname (cleanUrl (snd (url_matches text ! k)))"
  using assms by (simp add: processActions_URL_PATTERN)

text \<open>
  C2: for a text with four or more matches of the URL pattern the extractor returns the
  actions of the first three matches, in the order of the matches, which is the order
  of their offsets in the text: the offsets ascend strictly, and every match is the
  substring of the text at its offset.
\<close>

theorem extract_first_three_in_source_order:
  assumes "4 \<le> length (url_matches text)"
  shows "fst (processActions (URL_PATTERN li) hostname text) =
           Inr (map (\<lambda>m. view_action hostname (cleanUrl (snd m)))
                  [url_matches text ! 0, url_matches text ! 1, url_matches text ! 2])
         \<and> sorted_wrt (<) (map fst (url_matches text))
         \<and> (\<forall>k < length (url_matches text).
              take (length (snd (url_matches text ! k))) (drop (fst (url_matches text ! k)) text)
                = snd (url_matches text ! k))"
proof -
  from assms have "Suc (Suc (Suc (Suc 0))) \<le> length (url_matches text)" by simp
  then obtain a b c d rest where ms: "url_matches text = a # b # c # d # rest"
    by (auto simp: Suc_le_length_iff)
  then have "take 3 (url_matches text) = [url_matches text ! 0, url_matches text ! 1, url_matches text ! 2]"
    by (simp add: eval_nat_numeral)
  then have 1: "fst (processActions (URL_PATTERN li) hostname text) =
           Inr (map (\<lambda>m. view_action hostname (cleanUrl (snd m)))
                  [url_matches text ! 0, url_matches text ! 1, url_matches text ! 2])"
    by (simp only: processActions_URL_PATTERN fst_conv)
  from 1 url_matches_sorted url_matches_substring show ?thesis by blast
qed

theorem extract_first_three_in_source_order_witness:
  "4 \<le> length (url_matches ''https://a.com https://b.com https://c.com https://d.com'')
   \<and> fst (processActions (URL_PATTERN 0) example_hostname
            ''https://a.com https://b.com https://c.com https://d.com'') =
       Inr [\<lparr>action = ''view'', label = ''Open a'', url = ''https://a.com'', clear = Some True\<rparr>,
            \<lparr>action = ''view'', label = ''Open b'', url = ''https://b.com'', clear = Some True\<rparr>,
            \<lparr>action = ''view'', label = ''Open c'', url = ''https://c.com'', clear = Some True\<rparr>]"
proof -
  let ?T = "''https://a.com https://b.com https://c.com https://d.com''"
  have ms: "url_matches ?T =
      [(0, ''https://a.com''), (14, ''https://b.com''), (28, ''https://c.com''), (42, ''https://d.com'')]"
    by code_simp
  then have four: "4 \<le> length (url_matches ?T)" by simp
  have acts: "map (\<lambda>m. view_action example_hostname (cleanUrl (snd m)))
      [(0::nat, ''https://a.com''), (14, ''https://b.com''), (28, ''https://c.com'')] =
       [\<lparr>action = ''view'', label = ''Open a'', url = ''https://a.com'', clear = Some True\<rparr>,
        \<lparr>action = ''view'', label = ''Open b'', url = ''https://b.com'', clear = Some True\<rparr>,
        \<lparr>action = ''view'', label = ''Open c'', url = ''https://c.com'', clear = Some True\<rparr>]"
    by code_simp
  from extract_first_three_in_source_order [OF four, of 0 example_hostname]
  have "fst (processActions (URL_PATTERN 0) example_hostname ?T) =
           Inr (map (\<lambda>m. view_action example_hostname (cleanUrl (snd m)))
                  [url_matches ?T ! 0, url_matches ?T ! 1, url_matches ?T ! 2])"
    by blast
  with ms acts four show ?thesis by simp
qed

text \<open>
  The older build takes the three matches with the largest offsets, the last one first.
\<close>

lemma processUrls_takes_last_three:
  "fst (processUrls (URL_PATTERN 0) example_hostname
          ''https://a.com https://b.com https://c.com https://d.com'') =
     Inr ([\<lparr>action = ''view'', label = ''Open d'', url = ''https://d.com'', clear = Some True\<rparr>,
           \<lparr>action = ''view'', label = ''Open c'', url = ''https://c.com'', clear = Some True\<rparr>,
           \<lparr>action = ''view'', label = ''Open b'', url = ''https://b.com'', clear = Some True\<rparr>],
          ''https://a.com https://b.com https://c.com https://d.com'')"
  by code_simp

text \<open>
  C4: a match among the first three that ends with \<open>)\<close> and has no \<open>(\<close> before
  it loses that last character and is then trimmed; the result is the target of its
  action.
\<close>

theorem cleanUrl_strips_trailing_paren:
  assumes "k < length (url_matches text)" "k < 3"
    and "snd (url_matches text ! k) = m"
    and "endsWith m '')''" "CHR ''('' \<notin> set (butlast m)"
  shows "cleanUrl m = js_trim (butlast m)
         \<and> (\<exists>acts. fst (processActions (URL_PATTERN li) hostname text) = Inr acts
               \<and> k < length acts \<and> url (acts ! k) = js_trim (butlast m))"
proof -
  from assms(4,5) have c: "cleanUrl m = js_trim (butlast m)" by (rule cleanUrl_strip)
  from processActions_nth [OF assms(1,2), of li hostname] assms(3) c
  show ?thesis by (auto simp: view_action_def)
qed

theorem cleanUrl_strips_trailing_paren_witness:
  "0 < length (url_matches ''(https://example.com)'')
   \<and> snd (url_matches ''(https://example.com)'' ! 0) = ''https://example.com)''
   \<and> endsWith ''https://example.com)'' '')''
   \<and> CHR ''('' \<notin> set (butlast ''https://example.com)'')
   \<and> (\<exists>acts. fst (processActions (URL_PATTERN 0) example_hostname ''(https://example.com)'') = Inr acts
          \<and> 0 < length acts \<and> url (acts ! 0) = ''https://example.com'')"
proof -
  let ?T = "''(https://example.com)''"
  have ms: "url_matches ?T = [(1, ''https://example.com)'')]" by code_simp
  then have h1: "0 < length (url_matches ?T)" and h3: "snd (url_matches ?T ! 0) = ''https://example.com)''"
    by simp_all
  have h2: "(0::nat) < 3" by simp
  have h4: "endsWith ''https://example.com)'' '')''" by code_simp
  have h5: "CHR ''('' \<notin> set (butlast ''https://example.com)'')" by code_simp
  have t: "js_trim (butlast ''https://example.com)'') = ''https://example.com''" by code_simp
  from cleanUrl_strips_trailing_paren [OF h1 h2 h3 h4 h5, of 0 example_hostname] t h1 h3 h4 h5
  show ?thesis by simp
qed

text \<open>
  C10: the cleanup removes one character at most. A match among the first three that
  ends with two closing parentheses and has no opening one yields a target that still
  ends with a closing parenthesis.
\<close>

theorem cleanUrl_strips_one_paren_only:
  assumes "k < length (url_matches text)" "k < 3"
    and "snd (url_matches text ! k) = m @ ''))''"
    and "CHR ''('' \<notin> set m"
  shows "\<exists>acts. fst (processActions (URL_PATTERN li) hostname text) = Inr acts
           \<and> k < length acts
           \<and> url (acts ! k) = js_trim (m @ '')'')
           \<and> endsWith (url (acts ! k)) '')''"
proof -
  have e: "endsWith (m @ ''))'') '')''" by (simp add: endsWith_def suffix_def)
  have b: "butlast (m @ ''))'') = m @ '')''" by (simp add: butlast_append)
  from assms(4) have n: "CHR ''('' \<notin> set (butlast (m @ ''))''))" by (simp add: b)
  from cleanUrl_strip [OF e n] b have c: "cleanUrl (m @ ''))'') = js_trim (m @ '')'')" by simp
  have w: "\<not> isWhiteSpace (last (m @ '')''))" by (simp add: isWhiteSpace_def)
  have "js_trim (m @ '')'') \<noteq> []" "last (js_trim (m @ '')'')) = CHR '')''"
    using js_trim_last(2,3) [OF _ w] by simp_all
  then have l: "endsWith (js_trim (m @ '')'')) '')''"
    by (metis append_butlast_last_id endsWith_def suffixI)
  from processActions_nth [OF assms(1,2), of li hostname] assms(3) c l
  show ?thesis by (auto simp: view_action_def)
qed

theorem cleanUrl_strips_one_paren_only_witness:
  "0 < length (url_matches ''https://a.com))'')
   \<and> snd (url_matches ''https://a.com))'' ! 0) = ''https://a.com'' @ ''))''
   \<and> CHR ''('' \<notin> set ''https://a.com''
   \<and> (\<exists>acts. fst (processActions (URL_PATTERN 0) example_hostname ''https://a.com))'') = Inr acts
          \<and> 0 < length acts \<and> url (acts ! 0) = ''https://a.com)'')"
proof -
  let ?T = "''https://a.com))''"
  have ms: "url_matches ?T = [(0, ''https://a.com))'')]" by code_simp
  then have h1: "0 < length (url_matches ?T)"
    and h3: "snd (url_matches ?T ! 0) = ''https://a.com'' @ ''))''"
    by simp_all
  have h2: "(0::nat) < 3" by simp
  have h4: "CHR ''('' \<notin> set ''https://a.com''" by code_simp
  have t: "js_trim (''https://a.com'' @ '')'') = ''https://a.com)''" by code_simp
  from cleanUrl_strips_one_paren_only [OF h1 h2 h3 h4, of 0 example_hostname] t h1 h3 h4
  show ?thesis by auto
qed

text \<open>
  C5: where the URL parser accepts the cleaned URL, the label of the action is
  \<open>Open\<close>, a space, and the host name without a leading \<open>www.\<close> and without a
  trailing \<open>.com\<close>, \<open>.org\<close>, \<open>.net\<close>, \<open>.io\<close> or \<open>.dev\<close>.
\<close>

theorem label_from_hostname:
  assumes "k < length (url_matches text)" "k < 3"
    and "hostname (cleanUrl (snd (url_matches text ! k))) = Some h"
  shows "derive_label hostname (cleanUrl (snd (url_matches text ! k))) = strip_tld_spec (strip_www_spec h)
         \<and> (\<exists>acts. fst (processActions (URL_PATTERN li) hostname text) = Inr acts
               \<and> k < length acts
               \<and> url (acts ! k) = cleanUrl (snd (url_matches text ! k))
               \<and> label (acts ! k) = ''Open '' @ strip_tld_spec (strip_www_spec h))"
proof -
  from derive_label_spec [of hostname "cleanUrl (snd (url_matches text ! k))" h, OF assms(3)]
  have d: "derive_label hostname (cleanUrl (snd (url_matches text ! k))) = strip_tld_spec (strip_www_spec h)" .
  from processActions_nth [OF assms(1,2), of li hostname] d
  show ?thesis by (auto simp: view_action_def)
qed

theorem label_from_hostname_witness:
  "url_matches ''see https://example.com/page and https://foo.io'' =
      [(4, ''https://example.com/page''), (33, ''https://foo.io'')]
   \<and> example_hostname ''https://example.com/page'' = Some ''example.com''
   \<and> example_hostname ''https://foo.io'' = Some ''foo.io''
   \<and> (\<exists>acts. fst (processActions (URL_PATTERN 0) example_hostname
                     ''see https://example.com/page and https://foo.io'') = Inr acts
          \<and> length acts = 2
          \<and> label (acts ! 0) = ''Open example'' \<and> label (acts ! 1) = ''Open foo'')"
proof -
  let ?T = "''see https://example.com/page and https://foo.io''"
  have ms: "url_matches ?T = [(4, ''https://example.com/page''), (33, ''https://foo.io'')]"
    by code_simp
  have c0: "cleanUrl ''https://example.com/page'' = ''https://example.com/page''" by code_simp
  have c1: "cleanUrl ''https://foo.io'' = ''https://foo.io''" by code_simp
  have e0: "example_hostname ''https://example.com/page'' = Some ''example.com''" by code_simp
  have e1: "example_hostname ''https://foo.io'' = Some ''foo.io''" by code_simp
  have s0: "strip_tld_spec (strip_www_spec ''example.com'') = ''example''" by code_simp
  have s1: "strip_tld_spec (strip_www_spec ''foo.io'') = ''foo''" by code_simp
  have k0: "0 < length (url_matches ?T)" and k1: "1 < length (url_matches ?T)"
    by (simp_all add: ms)
  have h0: "example_hostname (cleanUrl (snd (url_matches ?T ! 0))) = Some ''example.com''"
    by (simp add: ms c0 e0)
  have h1: "example_hostname (cleanUrl (snd (url_matches ?T ! 1))) = Some ''foo.io''"
    by (simp add: ms c1 e1)
  have three: "(0::nat) < 3" "(1::nat) < 3" by simp_all
  from label_from_hostname [of 0 ?T example_hostname "''example.com''" 0, OF k0 three(1) h0]
  obtain acts where a: "fst (processActions (URL_PATTERN 0) example_hostname ?T) = Inr acts"
    and l0: "label (acts ! 0) = ''Open '' @ strip_tld_spec (strip_www_spec ''example.com'')"
    by auto
  from label_from_hostname [of 1 ?T example_hostname "''foo.io''" 0, OF k1 three(2) h1] a
  have l1: "label (acts ! 1) = ''Open '' @ strip_tld_spec (strip_www_spec ''foo.io'')"
    by auto
  from a have len: "length acts = 2"
    by (auto simp: processActions_URL_PATTERN ms)
  from a len l0 l1 s0 s1 ms e0 e1 show ?thesis by simp
qed

text \<open>
  C6: a URL that the parser rejects does not stop the extraction. There is one action
  for each of the first three matches, with the cleaned match as its target, and the
  action of a rejected URL has the label \<open>Open link\<close>.
\<close>

theorem unparseable_url_gets_generic_label:
  "\<exists>acts. fst (processActions (URL_PATTERN li) hostname text) = Inr acts
     \<and> length acts = min 3 (length (url_matches text))
     \<and> (\<forall>k < length acts.
          url (acts ! k) = cleanUrl (snd (url_matches text ! k))
          \<and> (hostname (url (acts ! k)) = None \<longrightarrow> label (acts ! k) = ''Open link''))"
  by (simp add: processActions_URL_PATTERN view_action_def derive_label_def min_def)

theorem unparseable_url_gets_generic_label_witness:
  "example_hostname ''https://a.b:99999'' = None
   \<and> (\<exists>acts. fst (processActions (URL_PATTERN 0) example_hostname
                     ''https://a.b:99999 https://foo.io'') = Inr acts
          \<and> length acts = 2
          \<and> url (acts ! 0) = ''https://a.b:99999'' \<and> label (acts ! 0) = ''Open link''
          \<and> url (acts ! 1) = ''https://foo.io'')"
proof -
  let ?T = "''https://a.b:99999 https://foo.io''"
  have ms: "url_matches ?T = [(0, ''https://a.b:99999''), (18, ''https://foo.io'')]"
    by code_simp
  have c0: "cleanUrl ''https://a.b:99999'' = ''https://a.b:99999''" by code_simp
  have c1: "cleanUrl ''https://foo.io'' = ''https://foo.io''" by code_simp
  have e0: "example_hostname ''https://a.b:99999'' = None" by code_simp
  from unparseable_url_gets_generic_label [of 0 example_hostname ?T]
  obtain acts where a: "fst (processActions (URL_PATTERN 0) example_hostname ?T) = Inr acts"
    and len: "length acts = min 3 (length (url_matches ?T))"
    and all: "\<forall>k < length acts.
          url (acts ! k) = cleanUrl (snd (url_matches ?T ! k))
          \<and> (example_hostname (url (acts ! k)) = None \<longrightarrow> label (acts ! k) = ''Open link'')"
    by blast
  from len ms have l2: "length acts = 2" by simp
  with all have u0: "url (acts ! 0) = cleanUrl (snd (url_matches ?T ! 0))"
    and u1: "url (acts ! 1) = cleanUrl (snd (url_matches ?T ! 1))"
    and g0: "example_hostname (url (acts ! 0)) = None \<longrightarrow> label (acts ! 0) = ''Open link''"
    by simp_all
  from u0 u1 ms c0 c1 have "url (acts ! 0) = ''https://a.b:99999''" "url (acts ! 1) = ''https://foo.io''"
    by simp_all
  with g0 e0 a l2 show ?thesis by auto
qed

lemma detectMarkdown_zero_total: "\<exists>b. detectMarkdown markdown_it_zero text = Inr b"
proof -
  obtain toks where "markdown_it_zero text = Inr toks"
    by (simp add: markdown_it_zero_def)
  then show ?thesis by (simp add: detectMarkdown_cases)
qed




text \<open>
  C9: a second run of the extractor from the state that the first run leaves returns the
  same list, the state is the same after each run, and the list does not depend on the
  \<open>lastIndex\<close> that the module's pattern object holds. The detector has no state:
  parser and patterns are constructed in each call, so its result is a function of the
  text, and it is a boolean for every text.
\<close>

theorem two_runs_agree:
  "(let (r1, s1) = processActions (URL_PATTERN li) hostname text;
        (r2, s2) = processActions s1 hostname text
    in r1 = r2 \<and> s1 = URL_PATTERN li \<and> s2 = s1)
   \<and> fst (processActions (URL_PATTERN li') hostname text)
       = fst (processActions (URL_PATTERN li) hostname text)
   \<and> (\<exists>b. detectMarkdown markdown_it_zero text = Inr b)"
proof -
  have 1: "(let (r1, s1) = processActions (URL_PATTERN li) hostname text;
        (r2, s2) = processActions s1 hostname text
    in r1 = r2 \<and> s1 = URL_PATTERN li \<and> s2 = s1)"
    by (simp add: processActions_URL_PATTERN)
  have 2: "fst (processActions (URL_PATTERN li') hostname text)
       = fst (processActions (URL_PATTERN li) hostname text)"
    by (simp add: processActions_URL_PATTERN)
  from 1 2 detectMarkdown_zero_total show ?thesis by blast
qed

end
